theory Spec2Isabelle
  imports Main
begin

section \<open>The logger of mpc-qt (logger.cpp)\<close>

text \<open>
  A shallow embedding of the class \<open>Logger\<close>. A \<open>QString\<close> is a \<open>string\<close>: a
  sequence of characters with code points below 256. The object's members and what its
  member functions act on outside the object (the event queue of the thread that owns the
  logger, the signals emitted, the files written) are the fields of one record, which every
  member function takes and returns.
\<close>

subsection \<open>Strings\<close>

text \<open>\<open>QChar::isSpace\<close> on code points below 256: tab to carriage return, the space,
  next line (0x85) and the no-break space (0xA0).\<close>

definition isSpace :: "char \<Rightarrow> bool" where
  "isSpace c = (let u = (of_char c :: nat) in
     u = 32 \<or> (9 \<le> u \<and> u \<le> 13) \<or> u = 133 \<or> u = 160)"

text \<open>\<open>QString::trimmed\<close>: the string without its leading and trailing whitespace.\<close>

definition trimmed :: "string \<Rightarrow> string" where
  "trimmed l = rev (dropWhile isSpace (rev (dropWhile isSpace l)))"

text \<open>\<open>QStringList::join\<close> with a separator character.\<close>

fun join :: "char \<Rightarrow> string list \<Rightarrow> string" where
  "join sep [] = []"
| "join sep [x] = x"
| "join sep (x # y # ys) = x @ sep # join sep (y # ys)"

definition newline :: char where
  "newline = CHR 0x0A"

text \<open>The UTF-8 encoding of a string of code points below 256, as a \<open>QTextStream\<close> with
  the codec UTF-8 writes it, and the byte-order mark it generates.\<close>

definition utf8_char :: "char \<Rightarrow> string" where
  "utf8_char c = (let u = (of_char c :: nat) in
     if u < 128 then [c] else [char_of (192 + u div 64), char_of (128 + u mod 64)])"

definition toUtf8 :: "string \<Rightarrow> string" where
  "toUtf8 l = concat (map utf8_char l)"

definition utf8_bom :: string where
  "utf8_bom = [CHR 0xEF, CHR 0xBB, CHR 0xBF]"

text \<open>What \<open>fprintf\<close> prints for \<open>%s\<close>: the bytes of a C string, which ends at its
  first NUL byte.\<close>

definition c_str :: "string \<Rightarrow> string" where
  "c_str bytes = takeWhile (\<lambda>b. b \<noteq> CHR 0x00) bytes"

subsection \<open>The state\<close>

text \<open>A \<open>QTextStream\<close> on a \<open>QFile\<close>: the path of the file it writes to, and whether
  the byte-order mark is still to be generated (it is written with the first data).\<close>

record textstream =
  device :: string
  generateByteOrderMark :: bool

record qtimer =
  active :: bool
  interval :: int

text \<open>The three slots a queued invocation can name, with their arguments.\<close>

datatype request =
    MakeLog string
  | MakeLogPrefixed string string
  | MakeLogDescriptively string string string

text \<open>The signals \<open>logMessage\<close> and \<open>logMessageBuffer\<close>.\<close>

datatype signal =
    LogMessage string
  | LogMessageBuffer "string list"

record logger =
  loggingEnabled :: bool
  immediateMode :: bool
  pendingMessages :: "string list"
  logFileName :: string
  logFile :: "string option"
  logFileStream :: "textstream option"
  flushTimer :: qtimer
  eventQueue :: "request list"
  emitted :: "signal list"
  files :: "string \<Rightarrow> string option"

text \<open>The constructor sets \<open>immediateMode\<close> and creates the timer (a new \<open>QTimer\<close> is
  inactive, with interval 0); \<open>pendingMessages\<close> is default-constructed, so empty. The
  other members get the default initialisers of \<open>logger.h\<close>, which the argument stands
  for.\<close>

definition Logger :: "logger \<Rightarrow> logger" where
  "Logger members = members
     \<lparr>immediateMode := False, pendingMessages := [],
      flushTimer := \<lparr>active = False, interval = 0\<rparr>\<rparr>"

subsection \<open>Posting: the static \<open>Logger::log\<close> and \<open>Logger::logs\<close>\<close>

text \<open>\<open>QMetaObject::invokeMethod\<close> with \<open>Qt::QueuedConnection\<close> appends the
  invocation to the event queue of the logger's thread and returns; the slot runs when
  the event loop delivers it. The functions are given for an existing instance, which
  \<open>singleton()\<close> then returns.\<close>

definition post :: "request \<Rightarrow> logger \<Rightarrow> logger" where
  "post r s = s\<lparr>eventQueue := eventQueue s @ [r]\<rparr>"

definition log1 :: "string \<Rightarrow> logger \<Rightarrow> logger" where
  "log1 line s = post (MakeLog line) s"

definition log2 :: "string \<Rightarrow> string \<Rightarrow> logger \<Rightarrow> logger" where
  "log2 prefix message s = post (MakeLogPrefixed prefix message) s"

definition log3 :: "string \<Rightarrow> string \<Rightarrow> string \<Rightarrow> logger \<Rightarrow> logger" where
  "log3 prefix level message s = post (MakeLogDescriptively prefix level message) s"

definition logs2 :: "string \<Rightarrow> string list \<Rightarrow> logger \<Rightarrow> logger" where
  "logs2 prefix strings s = log2 prefix (join CHR '' '' strings) s"

text \<open>The static entry point for any request shape.\<close>

fun log :: "request \<Rightarrow> logger \<Rightarrow> logger" where
  "log (MakeLog line) s = log1 line s"
| "log (MakeLogPrefixed prefix message) s = log2 prefix message s"
| "log (MakeLogDescriptively prefix level message) s = log3 prefix level message s"

subsection \<open>The slots\<close>

text \<open>\<open>*logFileStream << text; logFileStream->flush()\<close> for the stream \<open>st\<close>.\<close>

definition contents :: "(string \<Rightarrow> string option) \<Rightarrow> string \<Rightarrow> string" where
  "contents fs path = (case fs path of None \<Rightarrow> [] | Some c \<Rightarrow> c)"

definition write_flush :: "textstream \<Rightarrow> string \<Rightarrow> logger \<Rightarrow> logger" where
  "write_flush st text s = s
     \<lparr>logFileStream := Some (st\<lparr>generateByteOrderMark := False\<rparr>),
      files := (files s)(device st \<mapsto>
        contents (files s) (device st)
          @ (if generateByteOrderMark st then utf8_bom else []) @ toUtf8 text)\<rparr>"

definition flushMessages :: "logger \<Rightarrow> logger" where
  "flushMessages s =
     (if pendingMessages s = [] then s
      else
        let s1 = (case logFileStream s of
                    Some st \<Rightarrow> write_flush st (join newline (pendingMessages s) @ [newline]) s
                  | None \<Rightarrow> s);
            s2 = s1\<lparr>emitted := emitted s1 @ [LogMessageBuffer (pendingMessages s1)]\<rparr>
        in s2\<lparr>pendingMessages := []\<rparr>)"

definition makeLog :: "string \<Rightarrow> logger \<Rightarrow> logger" where
  "makeLog line0 s =
     (if \<not> loggingEnabled s then s
      else
        let line = trimmed line0 in
        if immediateMode s then
          let s1 = s\<lparr>emitted := emitted s @ [LogMessage line]\<rparr>
          in (case logFileStream s1 of
                Some st \<Rightarrow> write_flush st (line @ [newline]) s1
              | None \<Rightarrow> s1)
        else s\<lparr>pendingMessages := pendingMessages s @ [line]\<rparr>)"

definition makeLogPrefixed :: "string \<Rightarrow> string \<Rightarrow> logger \<Rightarrow> logger" where
  "makeLogPrefixed prefix message s = makeLog (''['' @ prefix @ ''] '' @ message) s"

definition makeLogDescriptively :: "string \<Rightarrow> string \<Rightarrow> string \<Rightarrow> logger \<Rightarrow> logger" where
  "makeLogDescriptively prefix level message s =
     makeLog (''['' @ prefix @ ''] '' @ level @ '': '' @ message) s"

text \<open>\<open>QTimer::start\<close>, \<open>stop\<close> and \<open>setInterval\<close> on \<open>flushTimer\<close>.\<close>

definition timer_start :: "logger \<Rightarrow> logger" where
  "timer_start s = s\<lparr>flushTimer := (flushTimer s)\<lparr>active := True\<rparr>\<rparr>"

definition timer_stop :: "logger \<Rightarrow> logger" where
  "timer_stop s = s\<lparr>flushTimer := (flushTimer s)\<lparr>active := False\<rparr>\<rparr>"

definition timer_setInterval :: "int \<Rightarrow> logger \<Rightarrow> logger" where
  "timer_setInterval msec s = s\<lparr>flushTimer := (flushTimer s)\<lparr>interval := msec\<rparr>\<rparr>"

definition setLoggingEnabled :: "bool \<Rightarrow> logger \<Rightarrow> logger" where
  "setLoggingEnabled enabled s =
     (if enabled \<and> \<not> loggingEnabled s then
        let s1 = makeLogPrefixed ''logger'' ''enabling logging'' (s\<lparr>loggingEnabled := True\<rparr>)
        in if \<not> immediateMode s1 then timer_start s1 else s1
      else if \<not> enabled \<and> loggingEnabled s then
        let s1 = makeLogPrefixed ''logger'' ''disabling logging'' s;
            s2 = flushMessages s1;
            s3 = timer_stop s2
        in s3\<lparr>loggingEnabled := False\<rparr>
      else s)"

definition setFlushTime :: "int \<Rightarrow> logger \<Rightarrow> logger" where
  "setFlushTime msec s =
     (if msec \<le> 0 then
        let s1 = timer_stop s;
            s2 = (if \<not> immediateMode s1 then flushMessages s1 else s1)
        in s2\<lparr>immediateMode := True\<rparr>
      else
        timer_start (timer_setInterval (max 100 msec) (s\<lparr>immediateMode := False\<rparr>)))"

text \<open>\<open>setLogFile\<close>. Whether \<open>logFile->open(QFile::WriteOnly)\<close> succeeds is the
  file system's answer, the argument \<open>opens\<close>; a successful open creates or truncates the
  file. In the branch of a non-empty name neither the old \<open>QFile\<close> nor the old stream is
  deleted: the members are overwritten, and a stream that is not overwritten keeps writing
  to the file it was made for.\<close>

definition setLogFile :: "bool \<Rightarrow> string \<Rightarrow> logger \<Rightarrow> logger" where
  "setLogFile opens fileName s =
     (if logFileName s = fileName then s
      else
        let s1 = s\<lparr>logFileName := fileName\<rparr> in
        if fileName = [] then
          let s2 = log2 ''logger'' ''log file closed'' s1
          in s2\<lparr>logFileStream := None, logFile := None\<rparr>
        else
          let s2 = s1\<lparr>logFile := Some fileName\<rparr> in
          if \<not> opens then s2
          else
            let s3 = s2\<lparr>files := (files s2)(fileName \<mapsto> [])\<rparr>;
                s4 = logs2 ''logger'' [''log file'', logFileName s3, ''opened for writing''] s3
            in s4\<lparr>logFileStream :=
                    Some \<lparr>device = fileName, generateByteOrderMark = True\<rparr>\<rparr>)"

subsection \<open>The owning thread\<close>

text \<open>The meta-object call of a queued invocation.\<close>

fun invoke :: "request \<Rightarrow> logger \<Rightarrow> logger" where
  "invoke (MakeLog line) s = makeLog line s"
| "invoke (MakeLogPrefixed prefix message) s = makeLogPrefixed prefix message s"
| "invoke (MakeLogDescriptively prefix level message) s =
     makeLogDescriptively prefix level message s"

text \<open>The event loop delivers the oldest queued invocation.\<close>

definition deliver :: "logger \<Rightarrow> logger" where
  "deliver s = (case eventQueue s of
                  [] \<Rightarrow> s
                | r # rest \<Rightarrow> invoke r (s\<lparr>eventQueue := rest\<rparr>))"

text \<open>The timer's \<open>timeout\<close> signal is connected to \<open>flushMessages\<close>; only an active
  timer fires.\<close>

definition timeout :: "logger \<Rightarrow> logger" where
  "timeout s = (if active (flushTimer s) then flushMessages s else s)"

text \<open>The event loop delivers until the queue is empty. The slots post nothing, so each
  delivery shortens the queue.\<close>

function drain :: "logger \<Rightarrow> logger" where
  "drain s = (if eventQueue s = [] then s else drain (deliver s))"
  by pat_completeness auto
termination
proof (relation "measure (\<lambda>s. length (eventQueue s))")
  show "wf (measure (\<lambda>s. length (eventQueue s)))"
    by simp
next
  fix s :: logger
  assume nonempty: "eventQueue s \<noteq> []"
  have slot: "eventQueue (invoke r t) = eventQueue t" for r t
    by (cases r)
      (simp_all add: makeLogPrefixed_def makeLogDescriptively_def makeLog_def
         write_flush_def Let_def split: option.split)
  from nonempty obtain r rest where "eventQueue s = r # rest"
    by (cases "eventQueue s") auto
  then show "(deliver s, s) \<in> measure (\<lambda>s. length (eventQueue s))"
    by (simp add: deliver_def slot)
qed

declare drain.simps [simp del]

text \<open>The line a request is accepted as: formatted by its slot, trimmed by
  \<open>makeLog\<close>.\<close>

fun line_of :: "request \<Rightarrow> string" where
  "line_of (MakeLog line) = trimmed line"
| "line_of (MakeLogPrefixed prefix message) = trimmed (''['' @ prefix @ ''] '' @ message)"
| "line_of (MakeLogDescriptively prefix level message) =
     trimmed (''['' @ prefix @ ''] '' @ level @ '': '' @ message)"

subsection \<open>Sequences of operations\<close>

text \<open>What can happen to the logger on its thread: a request is posted, the event loop
  delivers one, the timer fires, or a member function is called.\<close>

datatype operation =
    Log request
  | Deliver
  | Timeout
  | Invoke request
  | FlushMessages
  | SetLoggingEnabled bool
  | SetFlushTime int
  | SetLogFile bool string

fun step :: "operation \<Rightarrow> logger \<Rightarrow> logger" where
  "step (Log r) s = log r s"
| "step Deliver s = deliver s"
| "step Timeout s = timeout s"
| "step (Invoke r) s = invoke r s"
| "step FlushMessages s = flushMessages s"
| "step (SetLoggingEnabled enabled) s = setLoggingEnabled enabled s"
| "step (SetFlushTime msec) s = setFlushTime msec s"
| "step (SetLogFile opens fileName) s = setLogFile opens fileName s"

definition run :: "operation list \<Rightarrow> logger \<Rightarrow> logger" where
  "run ops s = fold step ops s"

text \<open>The logger without the record of what it has emitted and written so far.\<close>

definition forget :: "logger \<Rightarrow> logger" where
  "forget s = s\<lparr>emitted := [], files := (\<lambda>path. None)\<rparr>"

subsection \<open>The fatal path\<close>

text \<open>The process as \<open>fatalMessage\<close> sees it: the static \<open>loggerInstance\<close>, what has
  been written to standard error, and whether \<open>std::abort\<close> has ended the process.
  \<open>QString::toLocal8Bit\<close> depends on the locale and is an argument.\<close>

record process =
  loggerInstance :: "logger option"
  stderr :: string
  aborted :: bool

definition fatalMessage :: "(string \<Rightarrow> string) \<Rightarrow> process \<Rightarrow> process" where
  "fatalMessage toLocal8Bit p =
     (let p1 = (case loggerInstance p of
                  Some l \<Rightarrow>
                    p\<lparr>stderr := fold (\<lambda>i out. out @ c_str (toLocal8Bit i) @ [newline])
                                   (pendingMessages l) (stderr p)\<rparr>
                | None \<Rightarrow> p)
      in p1\<lparr>aborted := True\<rparr>)"

subsection \<open>Example states\<close>

text \<open>One choice of the initialisers of \<open>logger.h\<close>, for the examples: logging
  disabled, no file name, no file, nothing queued, emitted or written.\<close>

definition members0 :: logger where
  "members0 = \<lparr>loggingEnabled = False, immediateMode = False, pendingMessages = [],
     logFileName = [], logFile = None, logFileStream = None,
     flushTimer = \<lparr>active = False, interval = 0\<rparr>,
     eventQueue = [], emitted = [], files = (\<lambda>path. None)\<rparr>"

text \<open>The same with logging enabled, and with two lines pending.\<close>

definition enabled0 :: logger where
  "enabled0 = members0\<lparr>loggingEnabled := True\<rparr>"

definition pending2 :: logger where
  "pending2 = members0\<lparr>loggingEnabled := True, pendingMessages := [''m1'', ''m2'']\<rparr>"

subsection \<open>Writing through an optional stream\<close>

text \<open>The files after \<open>text\<close> has been written and flushed through the stream, if there
  is one: what \<open>write_flush\<close> does to \<open>files\<close>.\<close>

definition written ::
  "textstream option \<Rightarrow> string \<Rightarrow> (string \<Rightarrow> string option) \<Rightarrow> string \<Rightarrow> string option" where
  "written stream text fs =
     (case stream of
        None \<Rightarrow> fs
      | Some st \<Rightarrow> fs(device st \<mapsto>
          contents fs (device st)
            @ (if generateByteOrderMark st then utf8_bom else []) @ toUtf8 text))"

text \<open>The stream after a write: its byte-order mark is out.\<close>

definition after_write :: "textstream option \<Rightarrow> textstream option" where
  "after_write stream = map_option (\<lambda>st. st\<lparr>generateByteOrderMark := False\<rparr>) stream"

subsection \<open>Example sessions\<close>

text \<open>Logging enabled, immediate mode, a file opened, its confirmation delivered, one line
  logged and delivered.\<close>

definition sink_open :: logger where
  "sink_open = run [SetLoggingEnabled True, SetFlushTime 0, SetLogFile True ''out.log'',
     Deliver, Log (MakeLog ''hello''), Deliver] (Logger members0)"

text \<open>Logging enabled in buffered mode, a file opened, its confirmation delivered and one
  more line logged: three lines pending, nothing written yet.\<close>

definition sink_buffered :: logger where
  "sink_buffered = run [SetLoggingEnabled True, SetLogFile True ''out.log'', Deliver,
     Invoke (MakeLog ''a'')] (Logger members0)"

text \<open>A file opened while logging is disabled, and a request posted.\<close>

definition sink_disabled :: logger where
  "sink_disabled = run [SetLogFile True ''out.log'', Deliver, Log (MakeLog ''b'')]
     (Logger members0)"

text \<open>Then another file is asked for, and cannot be opened.\<close>

definition failed_reopen :: logger where
  "failed_reopen = setLogFile False ''other.log'' sink_open"

text \<open>A pending line with a NUL character in it, and the process that holds this
  logger.\<close>

definition nul_line :: logger where
  "nul_line = run [SetLoggingEnabled True, Invoke (MakeLog [CHR ''a'', CHR 0x00, CHR ''b''])]
     (Logger members0)"

definition crashing :: process where
  "crashing = \<lparr>loggerInstance = Some nul_line, stderr = [], aborted = False\<rparr>"

definition crashing2 :: process where
  "crashing2 = \<lparr>loggerInstance = Some pending2, stderr = [], aborted = False\<rparr>"

definition no_instance :: process where
  "no_instance = \<lparr>loggerInstance = None, stderr = [], aborted = False\<rparr>"

subsection \<open>Operations that open no file\<close>

text \<open>Every operation but a \<open>setLogFile\<close> with a non-empty name whose open succeeds.\<close>

fun opens_no_file :: "operation \<Rightarrow> bool" where
  "opens_no_file (SetLogFile opens fileName) = (\<not> opens \<or> fileName = [])"
| "opens_no_file op = True"

subsection \<open>Invariants\<close>

text \<open>In immediate mode nothing is pending; the timer is active only in buffered mode;
  while logging is disabled nothing is pending.\<close>

definition buffer_inv :: "logger \<Rightarrow> bool" where
  "buffer_inv s = (immediateMode s \<longrightarrow> pendingMessages s = [])"

definition timer_inv :: "logger \<Rightarrow> bool" where
  "timer_inv s = (active (flushTimer s) \<longrightarrow> \<not> immediateMode s)"

definition idle_inv :: "logger \<Rightarrow> bool" where
  "idle_inv s = (\<not> loggingEnabled s \<longrightarrow> pendingMessages s = [])"

section \<open>Properties\<close>

subsection \<open>What each operation does to the members\<close>

lemma trimmed_lifecycle [simp]:
  "trimmed ''[logger] enabling logging'' = ''[logger] enabling logging''"
  "trimmed ''[logger] disabling logging'' = ''[logger] disabling logging''"
  by (simp_all add: trimmed_def isSpace_def)

lemma loggingEnabled_makeLog: "loggingEnabled (makeLog line s) = loggingEnabled s"
  by (simp add: makeLog_def Let_def write_flush_def split: option.split)

lemma makeLog_members:
  "immediateMode (makeLog line s) = immediateMode s"
  "flushTimer (makeLog line s) = flushTimer s"
  "pendingMessages (makeLog line s) =
     (if loggingEnabled s \<and> \<not> immediateMode s then pendingMessages s @ [trimmed line]
      else pendingMessages s)"
  by (simp_all add: makeLog_def Let_def write_flush_def split: option.split)

lemma flushMessages_members:
  "loggingEnabled (flushMessages s) = loggingEnabled s"
  "immediateMode (flushMessages s) = immediateMode s"
  "flushTimer (flushMessages s) = flushTimer s"
  "pendingMessages (flushMessages s) = []"
  by (simp_all add: flushMessages_def Let_def write_flush_def split: option.split)

lemma invoke_members:
  "loggingEnabled (invoke r s) = loggingEnabled s"
  "immediateMode (invoke r s) = immediateMode s"
  "flushTimer (invoke r s) = flushTimer s"
  "pendingMessages (invoke r s) =
     (if loggingEnabled s \<and> \<not> immediateMode s then pendingMessages s @ [line_of r]
      else pendingMessages s)"
  by (cases r; simp add: makeLogPrefixed_def makeLogDescriptively_def makeLog_members
        loggingEnabled_makeLog)+

lemma setLoggingEnabled_members:
  "loggingEnabled (setLoggingEnabled enabled s) = enabled"
  "immediateMode (setLoggingEnabled enabled s) = immediateMode s"
  "active (flushTimer (setLoggingEnabled enabled s)) =
     (if enabled \<and> \<not> loggingEnabled s then \<not> immediateMode s \<or> active (flushTimer s)
      else if \<not> enabled \<and> loggingEnabled s then False
      else active (flushTimer s))"
  "pendingMessages (setLoggingEnabled enabled s) =
     (if enabled \<and> \<not> loggingEnabled s \<and> \<not> immediateMode s
        then pendingMessages s @ [''[logger] enabling logging'']
      else if \<not> enabled \<and> loggingEnabled s then []
      else pendingMessages s)"
  by (auto simp add: setLoggingEnabled_def Let_def makeLogPrefixed_def makeLog_members
      loggingEnabled_makeLog flushMessages_members timer_start_def timer_stop_def)

lemma setFlushTime_members:
  "loggingEnabled (setFlushTime msec s) = loggingEnabled s"
  "immediateMode (setFlushTime msec s) = (msec \<le> 0)"
  "active (flushTimer (setFlushTime msec s)) = (0 < msec)"
  "interval (flushTimer (setFlushTime msec s)) =
     (if msec \<le> 0 then interval (flushTimer s) else max 100 msec)"
  "pendingMessages (setFlushTime msec s) =
     (if msec \<le> 0 \<and> \<not> immediateMode s then [] else pendingMessages s)"
  by (auto simp add: setFlushTime_def Let_def flushMessages_members timer_start_def
      timer_stop_def timer_setInterval_def)

lemma setLogFile_members:
  "loggingEnabled (setLogFile opens fileName s) = loggingEnabled s"
  "immediateMode (setLogFile opens fileName s) = immediateMode s"
  "flushTimer (setLogFile opens fileName s) = flushTimer s"
  "pendingMessages (setLogFile opens fileName s) = pendingMessages s"
  by (simp_all add: setLogFile_def Let_def log2_def logs2_def post_def)

lemma post_members:
  "loggingEnabled (post r s) = loggingEnabled s"
  "immediateMode (post r s) = immediateMode s"
  "flushTimer (post r s) = flushTimer s"
  "pendingMessages (post r s) = pendingMessages s"
  by (simp_all add: post_def)

lemma log_members:
  "loggingEnabled (log r s) = loggingEnabled s"
  "immediateMode (log r s) = immediateMode s"
  "flushTimer (log r s) = flushTimer s"
  "pendingMessages (log r s) = pendingMessages s"
  by (cases r; simp add: log1_def log2_def log3_def post_members)+

lemma deliver_members:
  "loggingEnabled (deliver s) = loggingEnabled s"
  "immediateMode (deliver s) = immediateMode s"
  "flushTimer (deliver s) = flushTimer s"
  "pendingMessages (deliver s) =
     (case eventQueue s of [] \<Rightarrow> pendingMessages s
      | r # rest \<Rightarrow> if loggingEnabled s \<and> \<not> immediateMode s
          then pendingMessages s @ [line_of r] else pendingMessages s)"
  by (auto simp add: deliver_def invoke_members split: list.split)

lemma timeout_members:
  "loggingEnabled (timeout s) = loggingEnabled s"
  "immediateMode (timeout s) = immediateMode s"
  "flushTimer (timeout s) = flushTimer s"
  "pendingMessages (timeout s) = (if active (flushTimer s) then [] else pendingMessages s)"
  by (simp_all add: timeout_def flushMessages_members)

lemmas step_members = log_members deliver_members timeout_members invoke_members
  flushMessages_members setLoggingEnabled_members setFlushTime_members setLogFile_members

subsection \<open>The invariants hold in every reachable state\<close>

lemma buffer_inv_step: "buffer_inv s \<Longrightarrow> buffer_inv (step op s)"
  by (cases op) (auto simp add: buffer_inv_def step_members split: list.split)



lemma buffer_inv_run: "buffer_inv s \<Longrightarrow> buffer_inv (run ops s)"
  unfolding run_def by (induction ops arbitrary: s) (simp_all add: buffer_inv_step)



lemma Logger_inv: "buffer_inv (Logger members)" "timer_inv (Logger members)"
  "idle_inv (Logger members)"
  by (simp_all add: Logger_def buffer_inv_def timer_inv_def idle_inv_def)

text \<open>C10: from the constructed logger, after every sequence of operations (posting,
  delivery, timer, direct slot calls, \<open>flushMessages\<close>, \<open>setLoggingEnabled\<close>,
  \<open>setFlushTime\<close>, \<open>setLogFile\<close>), nothing is pending whenever \<open>immediateMode\<close> is
  set.\<close>

theorem immediate_mode_buffer_empty:
  "immediateMode (run ops (Logger members)) \<longrightarrow>
   pendingMessages (run ops (Logger members)) = []"
  using buffer_inv_run [OF Logger_inv(1), of ops members] by (simp add: buffer_inv_def)

theorem immediate_mode_buffer_empty_witness:
  "immediateMode (run [SetLoggingEnabled True, Invoke (MakeLog ''a''), SetFlushTime 0,
      Log (MakeLog ''b''), Deliver] (Logger members0)) \<and>
   pendingMessages (run [SetLoggingEnabled True, Invoke (MakeLog ''a''), SetFlushTime 0,
      Log (MakeLog ''b''), Deliver] (Logger members0)) = []"
proof -
  have "immediateMode (run [SetLoggingEnabled True, Invoke (MakeLog ''a''), SetFlushTime 0,
      Log (MakeLog ''b''), Deliver] (Logger members0))"
    by (simp add: run_def log1_def post_members step_members)
  with immediate_mode_buffer_empty [of "[SetLoggingEnabled True, Invoke (MakeLog ''a''),
      SetFlushTime 0, Log (MakeLog ''b''), Deliver]" members0]
  show ?thesis by simp
qed

subsection \<open>The timer\<close>




subsection \<open>What a flush delivers\<close>

lemma flushMessages_emitted:
  "emitted (flushMessages s) =
     emitted s @ (if pendingMessages s = [] then [] else [LogMessageBuffer (pendingMessages s)])"
  by (simp add: flushMessages_def Let_def write_flush_def split: option.split)

lemma flushMessages_files:
  "files (flushMessages s) =
     (if pendingMessages s = [] then files s
      else written (logFileStream s) (join newline (pendingMessages s) @ [newline]) (files s))"
  by (simp add: flushMessages_def Let_def write_flush_def written_def split: option.split)

lemma fold_log: "fold log rs s = s\<lparr>eventQueue := eventQueue s @ rs\<rparr>"
proof (induction rs arbitrary: s)
  case Nil
  show ?case by simp
next
  case (Cons r rs)
  have "log r s = s\<lparr>eventQueue := eventQueue s @ [r]\<rparr>"
    by (cases r) (simp_all add: log1_def log2_def log3_def post_def)
  then show ?case by (simp add: Cons.IH)
qed

lemma invoke_buffered:
  "loggingEnabled s \<Longrightarrow> \<not> immediateMode s \<Longrightarrow>
   invoke r s = s\<lparr>pendingMessages := pendingMessages s @ [line_of r]\<rparr>"
  by (cases r) (simp_all add: makeLog_def makeLogPrefixed_def makeLogDescriptively_def)

lemma drain_buffered:
  "loggingEnabled s \<Longrightarrow> \<not> immediateMode s \<Longrightarrow>
   drain s = s\<lparr>pendingMessages := pendingMessages s @ map line_of (eventQueue s),
               eventQueue := []\<rparr>"
proof (induction s rule: drain.induct)
  case (1 s)
  show ?case
  proof (cases "eventQueue s")
    case Nil
    then show ?thesis by (simp add: drain.simps [of s])
  next
    case (Cons r rest)
    then have step: "deliver s =
        s\<lparr>eventQueue := rest, pendingMessages := pendingMessages s @ [line_of r]\<rparr>"
      using "1.prems" by (simp add: deliver_def invoke_buffered)
    have "drain s = drain (deliver s)"
      using Cons by (simp add: drain.simps [of s])
    also have "\<dots> = (deliver s)
        \<lparr>pendingMessages := pendingMessages (deliver s) @ map line_of (eventQueue (deliver s)),
         eventQueue := []\<rparr>"
      using "1.IH" "1.prems" Cons by (simp add: deliver_members)
    finally show ?thesis using Cons by (simp add: step)
  qed
qed

text \<open>C1: on an enabled logger in buffered mode, after the requests \<open>rs\<close> have been
  posted in this order and the event queue has been delivered, the pending lines are the
  earlier ones followed by the lines of the requests in posting order (those already queued,
  then \<open>rs\<close>); the next \<open>flushMessages\<close> emits exactly this list as one
  \<open>logMessageBuffer\<close> batch (nothing if the list is empty), writes it joined by
  newlines to the file if there is a stream, and leaves \<open>pendingMessages\<close> empty.\<close>

theorem flush_batch_in_call_order:
  assumes "loggingEnabled s" and "\<not> immediateMode s"
  shows "pendingMessages (drain (fold log rs s)) =
           pendingMessages s @ map line_of (eventQueue s @ rs) \<and>
         emitted (flushMessages (drain (fold log rs s))) =
           emitted s @
           (if pendingMessages s @ map line_of (eventQueue s @ rs) = [] then []
            else [LogMessageBuffer (pendingMessages s @ map line_of (eventQueue s @ rs))]) \<and>
         files (flushMessages (drain (fold log rs s))) =
           (if pendingMessages s @ map line_of (eventQueue s @ rs) = [] then files s
            else written (logFileStream s)
                   (join newline (pendingMessages s @ map line_of (eventQueue s @ rs))
                      @ [newline])
                   (files s)) \<and>
         pendingMessages (flushMessages (drain (fold log rs s))) = []"
  using assms
  by (simp add: fold_log drain_buffered flushMessages_emitted flushMessages_files
      flushMessages_members)

theorem flush_batch_in_call_order_witness:
  "loggingEnabled enabled0 \<and> \<not> immediateMode enabled0 \<and>
   emitted (flushMessages (drain (fold log
      [MakeLog ''  one '', MakeLogPrefixed ''mpv'' ''two'',
       MakeLogDescriptively ''qt'' ''warn'' ''three''] enabled0))) =
     [LogMessageBuffer [''one'', ''[mpv] two'', ''[qt] warn: three'']] \<and>
   pendingMessages (flushMessages (drain (fold log
      [MakeLog ''  one '', MakeLogPrefixed ''mpv'' ''two'',
       MakeLogDescriptively ''qt'' ''warn'' ''three''] enabled0))) = []"
proof -
  have state: "loggingEnabled enabled0" "\<not> immediateMode enabled0" "eventQueue enabled0 = []"
    "pendingMessages enabled0 = []" "emitted enabled0 = []"
    by (simp_all add: enabled0_def members0_def)
  have lines: "map line_of [MakeLog ''  one '', MakeLogPrefixed ''mpv'' ''two'',
       MakeLogDescriptively ''qt'' ''warn'' ''three''] =
     [''one'', ''[mpv] two'', ''[qt] warn: three'']"
    by (simp add: trimmed_def isSpace_def)
  from flush_batch_in_call_order [OF state(1,2), of "[MakeLog ''  one '',
       MakeLogPrefixed ''mpv'' ''two'', MakeLogDescriptively ''qt'' ''warn'' ''three'']"]
  show ?thesis
    unfolding state(3) append_Nil lines using state by simp
qed

subsection \<open>Changing the flush interval\<close>

lemma setFlushTime_outputs:
  "emitted (setFlushTime msec s) =
     (if msec \<le> 0 \<and> \<not> immediateMode s then emitted (flushMessages s) else emitted s)"
  "files (setFlushTime msec s) =
     (if msec \<le> 0 \<and> \<not> immediateMode s then files (flushMessages s) else files s)"
  by (simp_all add: setFlushTime_def Let_def timer_start_def timer_stop_def
      timer_setInterval_def flushMessages_emitted flushMessages_files split: option.split)

text \<open>C4: in every reachable state \<open>s\<close>, \<open>setFlushTime msec\<close> with \<open>msec \<le> 0\<close> stops
  the timer, emits everything pending as one batch, writes the pending lines, joined by
  newlines and followed by a newline, through the stream if there is one, leaves nothing
  pending and sets immediate mode; with \<open>msec > 0\<close> it sets buffered mode and starts
  the timer with interval \<open>max 100 msec\<close>, leaving the pending lines in place and
  emitting and writing nothing; 50 and 100 give the same state.\<close>

theorem setFlushTime_keeps_messages:
  assumes "s = run ops (Logger members)"
  shows "(msec \<le> 0 \<longrightarrow>
            \<not> active (flushTimer (setFlushTime msec s)) \<and>
            immediateMode (setFlushTime msec s) \<and>
            pendingMessages (setFlushTime msec s) = [] \<and>
            emitted (setFlushTime msec s) =
              emitted s @ (if pendingMessages s = [] then []
                           else [LogMessageBuffer (pendingMessages s)]) \<and>
            files (setFlushTime msec s) =
              (if pendingMessages s = [] then files s
               else written (logFileStream s)
                      (join newline (pendingMessages s) @ [newline]) (files s))) \<and>
         (0 < msec \<longrightarrow>
            \<not> immediateMode (setFlushTime msec s) \<and>
            active (flushTimer (setFlushTime msec s)) \<and>
            interval (flushTimer (setFlushTime msec s)) = max 100 msec \<and>
            pendingMessages (setFlushTime msec s) = pendingMessages s \<and>
            emitted (setFlushTime msec s) = emitted s \<and>
            files (setFlushTime msec s) = files s) \<and>
         setFlushTime 50 s = setFlushTime 100 s"
proof -
  have inv: "buffer_inv s"
    unfolding assms by (rule buffer_inv_run [OF Logger_inv(1)])
  have clamp: "setFlushTime 50 s = setFlushTime 100 s"
    by (simp add: setFlushTime_def)
  show ?thesis
    using inv clamp
    by (auto simp add: buffer_inv_def setFlushTime_members setFlushTime_outputs
        flushMessages_emitted flushMessages_files)
qed

theorem setFlushTime_keeps_messages_witness:
  "pendingMessages sink_buffered =
     [''[logger] enabling logging'', ''[logger] log file out.log opened for writing'', ''a''] \<and>
   logFileStream sink_buffered = Some \<lparr>device = ''out.log'', generateByteOrderMark = True\<rparr> \<and>
   pendingMessages (setFlushTime 0 sink_buffered) = [] \<and>
   emitted (setFlushTime 0 sink_buffered) =
     [LogMessageBuffer [''[logger] enabling logging'',
        ''[logger] log file out.log opened for writing'', ''a'']] \<and>
   contents (files (setFlushTime 0 sink_buffered)) ''out.log'' =
     utf8_bom @ ''[logger] enabling logging'' @ [newline]
       @ ''[logger] log file out.log opened for writing'' @ [newline] @ ''a'' @ [newline] \<and>
   interval (flushTimer (setFlushTime 50 sink_buffered)) = 100 \<and>
   pendingMessages (setFlushTime 50 sink_buffered) =
     [''[logger] enabling logging'', ''[logger] log file out.log opened for writing'', ''a''] \<and>
   contents (files (setFlushTime 50 sink_buffered)) ''out.log'' = []"
proof -
  have pending: "pendingMessages sink_buffered =
     [''[logger] enabling logging'', ''[logger] log file out.log opened for writing'', ''a'']"
    by code_simp
  have stream: "logFileStream sink_buffered =
     Some \<lparr>device = ''out.log'', generateByteOrderMark = True\<rparr>"
    by code_simp
  have before: "emitted sink_buffered = []" "files sink_buffered ''out.log'' = Some []"
    by code_simp+
  have zero: "pendingMessages (setFlushTime 0 sink_buffered) = [] \<and>
     emitted (setFlushTime 0 sink_buffered) =
       [LogMessageBuffer [''[logger] enabling logging'',
          ''[logger] log file out.log opened for writing'', ''a'']] \<and>
     contents (files (setFlushTime 0 sink_buffered)) ''out.log'' =
       utf8_bom @ ''[logger] enabling logging'' @ [newline]
         @ ''[logger] log file out.log opened for writing'' @ [newline] @ ''a'' @ [newline]"
    using setFlushTime_keeps_messages [OF sink_buffered_def, of 0, THEN conjunct1]
    by (simp add: pending stream before written_def contents_def toUtf8_def utf8_char_def
        newline_def)
  have fifty: "interval (flushTimer (setFlushTime 50 sink_buffered)) = 100 \<and>
     pendingMessages (setFlushTime 50 sink_buffered) =
       [''[logger] enabling logging'', ''[logger] log file out.log opened for writing'',
        ''a''] \<and>
     contents (files (setFlushTime 50 sink_buffered)) ''out.log'' = []"
    using setFlushTime_keeps_messages [OF sink_buffered_def, of 50, THEN conjunct2,
        THEN conjunct1]
    by (simp add: pending before contents_def)
  show ?thesis
    using pending stream zero fifty by simp
qed

subsection \<open>Requests while logging is disabled\<close>

text \<open>C6: while logging is disabled, each of the three slots (and so the delivery of any
  request) returns the state it was given: nothing is appended to \<open>pendingMessages\<close>, no
  signal is emitted, no file is written, and there is no error result.\<close>

theorem disabled_request_ignored:
  assumes "\<not> loggingEnabled s"
  shows "makeLog line s = s \<and> makeLogPrefixed prefix message s = s \<and>
         makeLogDescriptively prefix level message s = s \<and> invoke r s = s"
  using assms
  by (cases r) (simp_all add: makeLog_def makeLogPrefixed_def makeLogDescriptively_def)

theorem disabled_request_ignored_witness:
  "\<not> loggingEnabled members0 \<and> makeLog ''hello'' members0 = members0 \<and>
   makeLogPrefixed ''mpv'' ''hello'' members0 = members0 \<and>
   makeLogDescriptively ''qt'' ''warn'' ''hello'' members0 = members0 \<and>
   invoke (MakeLog ''hello'') members0 = members0"
proof -
  have off: "\<not> loggingEnabled members0"
    by (simp add: members0_def)
  from disabled_request_ignored [OF off, where line = "''hello''" and prefix = "''mpv''"
      and message = "''hello''" and r = "MakeLog ''hello''"]
    disabled_request_ignored [OF off, where prefix = "''qt''" and level = "''warn''"
      and message = "''hello''"]
  show ?thesis using off by simp
qed

subsection \<open>Enabling and disabling\<close>

text \<open>C9: \<open>setLoggingEnabled true\<close> on an enabled logger and \<open>setLoggingEnabled false\<close>
  on a disabled one return the state unchanged (so no lifecycle line is logged), and a
  second call with the same value changes nothing the first has not.\<close>

theorem setLoggingEnabled_idempotent:
  "(loggingEnabled s \<longrightarrow> setLoggingEnabled True s = s) \<and>
   (\<not> loggingEnabled s \<longrightarrow> setLoggingEnabled False s = s) \<and>
   setLoggingEnabled enabled (setLoggingEnabled enabled s) = setLoggingEnabled enabled s"
proof -
  have on: "loggingEnabled (setLoggingEnabled True s)"
    by (simp add: setLoggingEnabled_def Let_def timer_start_def makeLogPrefixed_def
        loggingEnabled_makeLog)
  have off: "\<not> loggingEnabled (setLoggingEnabled False s)"
    by (simp add: setLoggingEnabled_def Let_def)
  have same: "loggingEnabled t \<Longrightarrow> setLoggingEnabled True t = t"
    "\<not> loggingEnabled t \<Longrightarrow> setLoggingEnabled False t = t" for t
    by (simp_all add: setLoggingEnabled_def)
  show ?thesis
    using on off same by (cases enabled) auto
qed

theorem setLoggingEnabled_idempotent_witness:
  "\<not> loggingEnabled members0 \<and> setLoggingEnabled False members0 = members0 \<and>
   loggingEnabled (setLoggingEnabled True members0) \<and>
   setLoggingEnabled True (setLoggingEnabled True members0) = setLoggingEnabled True members0"
proof -
  have off: "\<not> loggingEnabled members0"
    by (simp add: members0_def)
  have on: "loggingEnabled (setLoggingEnabled True members0)"
    by (simp add: setLoggingEnabled_def Let_def timer_start_def makeLogPrefixed_def
        loggingEnabled_makeLog members0_def)
  from setLoggingEnabled_idempotent [of members0 True]
    setLoggingEnabled_idempotent [of "setLoggingEnabled True members0" True]
  show ?thesis using off on by simp
qed

subsection \<open>Later output does not depend on what was emitted or written before\<close>

lemma flushMessages_closed:
  "flushMessages s =
     (if pendingMessages s = [] then s
      else s\<lparr>logFileStream := after_write (logFileStream s),
             files := written (logFileStream s)
                        (join newline (pendingMessages s) @ [newline]) (files s),
             emitted := emitted s @ [LogMessageBuffer (pendingMessages s)],
             pendingMessages := []\<rparr>)"
  by (cases "logFileStream s")
    (simp_all add: flushMessages_def Let_def write_flush_def written_def after_write_def)

lemma makeLog_closed:
  "makeLog line s =
     (if \<not> loggingEnabled s then s
      else if immediateMode s then
        s\<lparr>emitted := emitted s @ [LogMessage (trimmed line)],
          logFileStream := after_write (logFileStream s),
          files := written (logFileStream s) (trimmed line @ [newline]) (files s)\<rparr>
      else s\<lparr>pendingMessages := pendingMessages s @ [trimmed line]\<rparr>)"
  by (cases "logFileStream s")
    (simp_all add: makeLog_def Let_def write_flush_def written_def after_write_def)

lemma forget_members:
  "eventQueue (forget s) = eventQueue s"
  "flushTimer (forget s) = flushTimer s"
  "emitted (forget s) = []"
  "forget (s\<lparr>eventQueue := q\<rparr>) = (forget s)\<lparr>eventQueue := q\<rparr>"
  "forget (forget s) = forget s"
  by (simp_all add: forget_def)

lemma forget_flushMessages: "forget (flushMessages s) = forget (flushMessages (forget s))"
  by (simp add: forget_def flushMessages_closed)

lemma emitted_flushMessages_forget:
  "emitted (flushMessages s) = emitted s @ emitted (flushMessages (forget s))"
  by (simp add: forget_def flushMessages_closed)

lemma forget_makeLog: "forget (makeLog line s) = forget (makeLog line (forget s))"
  by (simp add: forget_def makeLog_closed)

lemma emitted_makeLog_forget:
  "emitted (makeLog line s) = emitted s @ emitted (makeLog line (forget s))"
  by (simp add: forget_def makeLog_closed)

lemma forget_invoke: "forget (invoke r s) = forget (invoke r (forget s))"
  by (cases r)
    (simp_all add: makeLogPrefixed_def makeLogDescriptively_def forget_makeLog [symmetric])

lemma emitted_invoke_forget:
  "emitted (invoke r s) = emitted s @ emitted (invoke r (forget s))"
  by (cases r)
    (simp_all add: makeLogPrefixed_def makeLogDescriptively_def
      emitted_makeLog_forget [symmetric])

lemma forget_setLoggingEnabled:
  "forget (setLoggingEnabled enabled s) = forget (setLoggingEnabled enabled (forget s))"
  by (simp add: forget_def setLoggingEnabled_def makeLogPrefixed_def makeLog_closed
      flushMessages_closed timer_start_def timer_stop_def Let_def)

lemma emitted_setLoggingEnabled_forget:
  "emitted (setLoggingEnabled enabled s) =
     emitted s @ emitted (setLoggingEnabled enabled (forget s))"
  by (simp add: forget_def setLoggingEnabled_def makeLogPrefixed_def makeLog_closed
      flushMessages_closed timer_start_def timer_stop_def Let_def)

lemma forget_setFlushTime:
  "forget (setFlushTime msec s) = forget (setFlushTime msec (forget s))"
  by (simp add: forget_def setFlushTime_def flushMessages_closed
      timer_start_def timer_stop_def timer_setInterval_def Let_def)

lemma emitted_setFlushTime_forget:
  "emitted (setFlushTime msec s) = emitted s @ emitted (setFlushTime msec (forget s))"
  by (simp add: forget_def setFlushTime_def flushMessages_closed
      timer_start_def timer_stop_def timer_setInterval_def Let_def)

lemma forget_setLogFile:
  "forget (setLogFile opens fileName s) = forget (setLogFile opens fileName (forget s))"
  by (simp add: forget_def setLogFile_def log2_def logs2_def post_def Let_def)

lemma emitted_setLogFile_forget:
  "emitted (setLogFile opens fileName s) =
     emitted s @ emitted (setLogFile opens fileName (forget s))"
  by (simp add: forget_def setLogFile_def log2_def logs2_def post_def Let_def)

lemma forget_log: "forget (log r s) = forget (log r (forget s))"
  by (cases r) (simp_all add: forget_def log1_def log2_def log3_def post_def)

lemma emitted_log_forget: "emitted (log r s) = emitted s @ emitted (log r (forget s))"
  by (cases r) (simp_all add: forget_def log1_def log2_def log3_def post_def)

lemma forget_deliver: "forget (deliver s) = forget (deliver (forget s))"
proof (cases "eventQueue s")
  case Nil
  then show ?thesis by (simp add: deliver_def forget_members)
next
  case (Cons r rest)
  have "forget (invoke r (s\<lparr>eventQueue := rest\<rparr>)) =
        forget (invoke r (forget (s\<lparr>eventQueue := rest\<rparr>)))"
    by (rule forget_invoke)
  then show ?thesis using Cons by (simp add: deliver_def forget_members)
qed

lemma emitted_deliver_forget: "emitted (deliver s) = emitted s @ emitted (deliver (forget s))"
proof (cases "eventQueue s")
  case Nil
  then show ?thesis by (simp add: deliver_def forget_members)
next
  case (Cons r rest)
  have "emitted (invoke r (s\<lparr>eventQueue := rest\<rparr>)) =
        emitted (s\<lparr>eventQueue := rest\<rparr>) @
        emitted (invoke r (forget (s\<lparr>eventQueue := rest\<rparr>)))"
    by (rule emitted_invoke_forget)
  then show ?thesis using Cons by (simp add: deliver_def forget_members)
qed

lemma forget_timeout: "forget (timeout s) = forget (timeout (forget s))"
  using forget_flushMessages [of s] by (simp add: timeout_def forget_members)

lemma emitted_timeout_forget: "emitted (timeout s) = emitted s @ emitted (timeout (forget s))"
  using emitted_flushMessages_forget [of s] by (simp add: timeout_def forget_members)

lemma forget_step: "forget (step op s) = forget (step op (forget s))"
  by (cases op)
    (simp_all only: step.simps forget_log [of _ s] forget_deliver [of s] forget_timeout [of s]
      forget_invoke [of _ s] forget_flushMessages [of s] forget_setLoggingEnabled [of _ s]
      forget_setFlushTime [of _ s] forget_setLogFile [of _ _ s])

lemma emitted_step_forget: "emitted (step op s) = emitted s @ emitted (step op (forget s))"
  by (cases op)
    (simp_all only: step.simps emitted_log_forget [of _ s] emitted_deliver_forget [of s]
      emitted_timeout_forget [of s] emitted_invoke_forget [of _ s]
      emitted_flushMessages_forget [of s] emitted_setLoggingEnabled_forget [of _ s]
      emitted_setFlushTime_forget [of _ s] emitted_setLogFile_forget [of _ _ s])

lemma run_forget:
  "forget (run ops s) = forget (run ops (forget s)) \<and>
   emitted (run ops s) = emitted s @ emitted (run ops (forget s))"
proof (induction ops arbitrary: s)
  case Nil
  show ?case by (simp add: run_def forget_members)
next
  case (Cons op ops)
  have here: "forget (run ops (step op s)) = forget (run ops (forget (step op s)))"
    and here_out: "emitted (run ops (step op s)) =
         emitted (step op s) @ emitted (run ops (forget (step op s)))"
    using Cons.IH [of "step op s"] by simp_all
  have there: "forget (run ops (step op (forget s))) = forget (run ops (forget (step op s)))"
    and there_out: "emitted (run ops (step op (forget s))) =
         emitted (step op (forget s)) @ emitted (run ops (forget (step op s)))"
    using Cons.IH [of "step op (forget s)"] forget_step [of op s] by simp_all
  have unfold: "run (op # ops) t = run ops (step op t)" for t
    by (simp add: run_def)
  show ?case
    using here here_out there there_out emitted_step_forget [of op s] by (simp add: unfold)
qed

lemma later_emitted:
  "forget a = forget b \<Longrightarrow>
   drop (length (emitted a)) (emitted (run ops a)) =
   drop (length (emitted b)) (emitted (run ops b))"
  using run_forget [of ops a] run_forget [of ops b] by simp

subsection \<open>Disabling\<close>

lemma setLoggingEnabled_False_forget:
  "loggingEnabled s \<Longrightarrow>
   forget (setLoggingEnabled False s) =
   forget (setLoggingEnabled False (s\<lparr>pendingMessages := []\<rparr>))"
  by (cases "logFileStream s")
    (simp_all add: forget_def setLoggingEnabled_def makeLogPrefixed_def makeLog_closed
      flushMessages_closed timer_stop_def Let_def after_write_def)

lemma setLoggingEnabled_False_emitted:
  "loggingEnabled s \<Longrightarrow>
   emitted (setLoggingEnabled False s) =
     emitted s @
     (if immediateMode s then
        LogMessage ''[logger] disabling logging'' #
          (if pendingMessages s = [] then [] else [LogMessageBuffer (pendingMessages s)])
      else [LogMessageBuffer (pendingMessages s @ [''[logger] disabling logging''])])"
  by (simp add: setLoggingEnabled_def makeLogPrefixed_def makeLog_closed
      flushMessages_closed timer_stop_def Let_def)

lemma toUtf8_append: "toUtf8 (a @ b) = toUtf8 a @ toUtf8 b"
  by (simp add: toUtf8_def)

lemma written_twice:
  "written (after_write (Some st)) text2 (written (Some st) text1 fs) =
   written (Some st) (text1 @ text2) fs"
  by (simp add: written_def contents_def toUtf8_append after_write_def)

lemma setLoggingEnabled_False_files:
  assumes "loggingEnabled s"
  shows "files (setLoggingEnabled False s) =
     written (logFileStream s)
       (if immediateMode s then
          ''[logger] disabling logging'' @ [newline] @
            (if pendingMessages s = [] then [] else join newline (pendingMessages s) @ [newline])
        else join newline (pendingMessages s @ [''[logger] disabling logging'']) @ [newline])
       (files s)"
proof (cases "logFileStream s")
  case None
  then show ?thesis
    using assms
    by (simp add: setLoggingEnabled_def Let_def timer_stop_def makeLogPrefixed_def
        flushMessages_closed makeLog_closed written_def after_write_def)
next
  case (Some st)
  then show ?thesis
    using assms written_twice [of st]
    by (simp add: setLoggingEnabled_def Let_def timer_stop_def makeLogPrefixed_def
        flushMessages_closed makeLog_closed)
qed

text \<open>C3: on an enabled logger, \<open>setLoggingEnabled false\<close> logs the line
  \<open>[logger] disabling logging\<close>, delivers it and every pending line to the subscribers
  and, if there is a stream, to the file, stops the timer and disables logging, with
  nothing left pending. What is emitted afterwards, by any later operations, is the same as
  if nothing had been pending before the transition: the delivered lines are not delivered
  again. After re-enabling, the buffer holds the enabling line only.\<close>

theorem disable_flushes_pending:
  assumes "loggingEnabled s"
  shows "\<not> loggingEnabled (setLoggingEnabled False s) \<and>
         \<not> active (flushTimer (setLoggingEnabled False s)) \<and>
         pendingMessages (setLoggingEnabled False s) = [] \<and>
         emitted (setLoggingEnabled False s) =
           emitted s @
           (if immediateMode s then
              LogMessage ''[logger] disabling logging'' #
                (if pendingMessages s = [] then []
                 else [LogMessageBuffer (pendingMessages s)])
            else [LogMessageBuffer (pendingMessages s @ [''[logger] disabling logging''])]) \<and>
         files (setLoggingEnabled False s) =
           written (logFileStream s)
             (if immediateMode s then
                ''[logger] disabling logging'' @ [newline] @
                  (if pendingMessages s = [] then []
                   else join newline (pendingMessages s) @ [newline])
              else join newline (pendingMessages s @ [''[logger] disabling logging''])
                     @ [newline])
             (files s) \<and>
         pendingMessages (setLoggingEnabled True (setLoggingEnabled False s)) =
           (if immediateMode s then [] else [''[logger] enabling logging'']) \<and>
         (\<forall>ops.
            drop (length (emitted (setLoggingEnabled False s)))
              (emitted (run ops (setLoggingEnabled False s))) =
            drop (length (emitted (setLoggingEnabled False (s\<lparr>pendingMessages := []\<rparr>))))
              (emitted (run ops (setLoggingEnabled False (s\<lparr>pendingMessages := []\<rparr>)))))"
proof -
  have members: "\<not> loggingEnabled (setLoggingEnabled False s)"
    "\<not> active (flushTimer (setLoggingEnabled False s))"
    "pendingMessages (setLoggingEnabled False s) = []"
    "pendingMessages (setLoggingEnabled True (setLoggingEnabled False s)) =
       (if immediateMode s then [] else [''[logger] enabling logging''])"
    using assms by (simp_all add: setLoggingEnabled_members)
  have later: "drop (length (emitted (setLoggingEnabled False s)))
              (emitted (run ops (setLoggingEnabled False s))) =
            drop (length (emitted (setLoggingEnabled False (s\<lparr>pendingMessages := []\<rparr>))))
              (emitted (run ops (setLoggingEnabled False (s\<lparr>pendingMessages := []\<rparr>))))"
    for ops
    by (rule later_emitted [OF setLoggingEnabled_False_forget [OF assms]])
  show ?thesis
    using members later setLoggingEnabled_False_emitted [OF assms]
      setLoggingEnabled_False_files [OF assms]
    by (intro conjI allI) assumption+
qed

theorem disable_flushes_pending_witness:
  "loggingEnabled pending2 \<and>
   pendingMessages (setLoggingEnabled False pending2) = [] \<and>
   emitted (setLoggingEnabled False pending2) =
     [LogMessageBuffer [''m1'', ''m2'', ''[logger] disabling logging'']] \<and>
   pendingMessages (setLoggingEnabled True (setLoggingEnabled False pending2)) =
     [''[logger] enabling logging'']"
proof -
  have state: "loggingEnabled pending2" "\<not> immediateMode pending2"
    "pendingMessages pending2 = [''m1'', ''m2'']" "emitted pending2 = []"
    by (simp_all add: pending2_def members0_def)
  from disable_flushes_pending [OF state(1)]
  show ?thesis using state by simp
qed

subsection \<open>The fatal path\<close>

lemma fold_stderr:
  "fold (\<lambda>i out. out @ f i) ms acc = acc @ concat (map f ms)"
  by (induction ms arbitrary: acc) simp_all

lemma c_str_id: "CHR 0x00 \<notin> set bytes \<Longrightarrow> c_str bytes = bytes"
  by (auto simp add: c_str_def takeWhile_eq_all_conv)

lemma nul_line_pending:
  "pendingMessages nul_line = [''[logger] enabling logging'', [CHR ''a'', CHR 0x00, CHR ''b'']]"
  by (simp add: nul_line_def run_def step_members makeLog_members Logger_def members0_def
        trimmed_def isSpace_def)

text \<open>C5 as stated fails: \<open>fprintf\<close> prints each line as a C string, so a pending line
  with a NUL character in it is written only up to that character.\<close>

theorem fatalMessage_truncates_counterexample:
  "pendingMessages nul_line =
     [''[logger] enabling logging'', [CHR ''a'', CHR 0x00, CHR ''b'']] \<and>
   stderr (fatalMessage toUtf8 crashing) =
     ''[logger] enabling logging'' @ [newline] @ ''a'' @ [newline] \<and>
   stderr (fatalMessage toUtf8 crashing) \<noteq>
     ''[logger] enabling logging'' @ [newline] @ [CHR ''a'', CHR 0x00, CHR ''b''] @ [newline]"
  by (simp add: nul_line_pending fatalMessage_def crashing_def c_str_def toUtf8_def
      utf8_char_def)

text \<open>C5, amended: when the local 8-bit form of no pending line contains a NUL byte,
  \<open>fatalMessage\<close> appends to standard error each pending line in its local 8-bit form
  followed by a newline, in buffer order, and aborts; the logger (its files and emitted
  signals with it) is as before. Without an instance it writes nothing and aborts.\<close>

theorem fatalMessage_drains_to_stderr:
  "(loggerInstance p = None \<longrightarrow> fatalMessage toLocal8Bit p = p\<lparr>aborted := True\<rparr>) \<and>
   (\<forall>l. loggerInstance p = Some l \<and>
        (\<forall>m \<in> set (pendingMessages l). CHR 0x00 \<notin> set (toLocal8Bit m)) \<longrightarrow>
        fatalMessage toLocal8Bit p =
          p\<lparr>stderr := stderr p @
               concat (map (\<lambda>m. toLocal8Bit m @ [newline]) (pendingMessages l)),
            aborted := True\<rparr>)"
proof (intro conjI allI impI)
  assume "loggerInstance p = None"
  then show "fatalMessage toLocal8Bit p = p\<lparr>aborted := True\<rparr>"
    by (simp add: fatalMessage_def)
next
  fix l
  assume inst: "loggerInstance p = Some l \<and>
    (\<forall>m \<in> set (pendingMessages l). CHR 0x00 \<notin> set (toLocal8Bit m))"
  then have whole:
    "concat (map (\<lambda>m. c_str (toLocal8Bit m) @ [newline]) (pendingMessages l)) =
     concat (map (\<lambda>m. toLocal8Bit m @ [newline]) (pendingMessages l))"
    by (simp add: c_str_id cong: map_cong)
  show "fatalMessage toLocal8Bit p =
      p\<lparr>stderr := stderr p @
           concat (map (\<lambda>m. toLocal8Bit m @ [newline]) (pendingMessages l)),
        aborted := True\<rparr>"
    using inst by (simp add: fatalMessage_def fold_stderr whole)
qed

theorem fatalMessage_drains_to_stderr_witness:
  "fatalMessage toUtf8 crashing2 =
     \<lparr>loggerInstance = Some pending2, stderr = ''m1'' @ [newline] @ ''m2'' @ [newline],
      aborted = True\<rparr> \<and>
   fatalMessage toUtf8 no_instance =
     \<lparr>loggerInstance = None, stderr = [], aborted = True\<rparr>"
proof -
  have pending: "pendingMessages pending2 = [''m1'', ''m2'']"
    by (simp add: pending2_def members0_def)
  have bytes: "toUtf8 ''m1'' = ''m1''" "toUtf8 ''m2'' = ''m2''"
    by (simp_all add: toUtf8_def utf8_char_def)
  have with_instance: "fatalMessage toUtf8 crashing2 =
     \<lparr>loggerInstance = Some pending2, stderr = ''m1'' @ [newline] @ ''m2'' @ [newline],
      aborted = True\<rparr>"
    using fatalMessage_drains_to_stderr [of crashing2 toUtf8, THEN conjunct2, rule_format,
        of pending2]
    by (simp add: pending bytes crashing2_def)
  have without: "fatalMessage toUtf8 no_instance =
     \<lparr>loggerInstance = None, stderr = [], aborted = True\<rparr>"
    using fatalMessage_drains_to_stderr [of no_instance toUtf8, THEN conjunct1]
    by (simp add: no_instance_def)
  show ?thesis using with_instance without by simp
qed

subsection \<open>Closing the log file\<close>

lemma no_stream_invoke:
  "logFileStream s = None \<Longrightarrow>
   logFileStream (invoke r s) = None \<and> files (invoke r s) = files s"
  by (cases r)
    (simp_all add: makeLogPrefixed_def makeLogDescriptively_def makeLog_closed
      after_write_def written_def)

lemma no_stream_deliver:
  "logFileStream s = None \<Longrightarrow>
   logFileStream (deliver s) = None \<and> files (deliver s) = files s"
  by (cases "eventQueue s") (simp_all add: deliver_def no_stream_invoke)

lemma no_stream_drain:
  "logFileStream s = None \<Longrightarrow> logFileStream (drain s) = None \<and> files (drain s) = files s"
proof (induction s rule: drain.induct)
  case (1 s)
  show ?case
  proof (cases "eventQueue s = []")
    case True
    then show ?thesis using "1.prems" by (simp add: drain.simps [of s])
  next
    case False
    then show ?thesis
      using "1.IH" "1.prems" no_stream_deliver [of s] by (simp add: drain.simps [of s])
  qed
qed

lemma no_stream_flushMessages:
  "logFileStream s = None \<Longrightarrow>
   logFileStream (flushMessages s) = None \<and> files (flushMessages s) = files s"
  by (simp add: flushMessages_closed after_write_def written_def)

lemma no_stream_setLoggingEnabled:
  "logFileStream s = None \<Longrightarrow>
   logFileStream (setLoggingEnabled enabled s) = None \<and>
   files (setLoggingEnabled enabled s) = files s"
  by (simp add: setLoggingEnabled_def Let_def makeLogPrefixed_def makeLog_closed
      flushMessages_closed timer_start_def timer_stop_def after_write_def written_def)

lemma no_stream_setFlushTime:
  "logFileStream s = None \<Longrightarrow>
   logFileStream (setFlushTime msec s) = None \<and> files (setFlushTime msec s) = files s"
  by (simp add: setFlushTime_def Let_def flushMessages_closed timer_start_def timer_stop_def
      timer_setInterval_def after_write_def written_def)

lemma no_stream_setLogFile:
  "logFileStream s = None \<Longrightarrow> \<not> opens \<or> fileName = [] \<Longrightarrow>
   logFileStream (setLogFile opens fileName s) = None \<and>
   files (setLogFile opens fileName s) = files s"
  by (auto simp add: setLogFile_def Let_def log2_def post_def)

lemma no_stream_log:
  "logFileStream (log r s) = logFileStream s \<and> files (log r s) = files s"
  by (cases r) (simp_all add: log1_def log2_def log3_def post_def)

lemma no_stream_step:
  assumes "logFileStream s = None" and "opens_no_file op"
  shows "logFileStream (step op s) = None \<and> files (step op s) = files s"
proof (cases op)
  case (Log r)
  then show ?thesis using assms(1) no_stream_log [of r s] by simp
next
  case Deliver
  then show ?thesis using no_stream_deliver [OF assms(1)] by simp
next
  case Timeout
  then show ?thesis
    using no_stream_flushMessages [OF assms(1)] assms(1) by (simp add: timeout_def)
next
  case (Invoke r)
  then show ?thesis using no_stream_invoke [OF assms(1), of r] by simp
next
  case FlushMessages
  then show ?thesis using no_stream_flushMessages [OF assms(1)] by simp
next
  case (SetLoggingEnabled enabled)
  then show ?thesis using no_stream_setLoggingEnabled [OF assms(1), of enabled] by simp
next
  case (SetFlushTime msec)
  then show ?thesis using no_stream_setFlushTime [OF assms(1), of msec] by simp
next
  case (SetLogFile opens fileName)
  then show ?thesis
    using no_stream_setLogFile [OF assms(1), of opens fileName] assms(2) by simp
qed

lemma no_stream_run:
  "logFileStream s = None \<Longrightarrow> list_all opens_no_file ops \<Longrightarrow>
   logFileStream (run ops s) = None \<and> files (run ops s) = files s"
proof (induction ops arbitrary: s)
  case Nil
  then show ?case by (simp add: run_def)
next
  case (Cons op ops)
  have first: "logFileStream (step op s) = None" "files (step op s) = files s"
    using no_stream_step [of s op] Cons.prems by simp_all
  have rest: "logFileStream (run ops (step op s)) = None \<and>
      files (run ops (step op s)) = files (step op s)"
    using Cons.IH [OF first(1)] Cons.prems(2) by simp
  have unfold: "run (op # ops) s = run ops (step op s)"
    by (simp add: run_def)
  show ?case using rest first by (simp add: unfold)
qed

text \<open>The delivery of the whole queue while logging is disabled, and in immediate mode
  without a stream.\<close>

lemma drain_disabled:
  "\<not> loggingEnabled s \<Longrightarrow> drain s = s\<lparr>eventQueue := []\<rparr>"
proof (induction s rule: drain.induct)
  case (1 s)
  show ?case
  proof (cases "eventQueue s")
    case Nil
    then show ?thesis by (simp add: drain.simps [of s])
  next
    case (Cons r rest)
    have slot: "invoke r (s\<lparr>eventQueue := rest\<rparr>) = s\<lparr>eventQueue := rest\<rparr>"
      using "1.prems" by (cases r)
        (simp_all add: makeLog_def makeLogPrefixed_def makeLogDescriptively_def)
    have one: "deliver s = s\<lparr>eventQueue := rest\<rparr>"
      using Cons by (simp add: deliver_def slot)
    have "drain s = drain (deliver s)"
      using Cons by (simp add: drain.simps [of s])
    also have "\<dots> = (deliver s)\<lparr>eventQueue := []\<rparr>"
      using "1.IH" "1.prems" Cons by (simp add: one)
    finally show ?thesis by (simp add: one)
  qed
qed

lemma invoke_immediate:
  "loggingEnabled s \<Longrightarrow> immediateMode s \<Longrightarrow> logFileStream s = None \<Longrightarrow>
   invoke r s = s\<lparr>emitted := emitted s @ [LogMessage (line_of r)]\<rparr>"
  by (cases r)
    (simp_all add: makeLog_def makeLogPrefixed_def makeLogDescriptively_def Let_def)

lemma drain_immediate:
  "loggingEnabled s \<Longrightarrow> immediateMode s \<Longrightarrow> logFileStream s = None \<Longrightarrow>
   drain s = s\<lparr>emitted := emitted s @ map LogMessage (map line_of (eventQueue s)),
               eventQueue := []\<rparr>"
proof (induction s rule: drain.induct)
  case (1 s)
  show ?case
  proof (cases "eventQueue s")
    case Nil
    then show ?thesis by (simp add: drain.simps [of s])
  next
    case (Cons r rest)
    have one: "deliver s =
        s\<lparr>eventQueue := rest, emitted := emitted s @ [LogMessage (line_of r)]\<rparr>"
      using Cons "1.prems" by (simp add: deliver_def invoke_immediate)
    have "drain s = drain (deliver s)"
      using Cons by (simp add: drain.simps [of s])
    also have "\<dots> = (deliver s)
        \<lparr>emitted := emitted (deliver s) @ map LogMessage (map line_of (eventQueue (deliver s))),
         eventQueue := []\<rparr>"
      using "1.IH" "1.prems" Cons by (simp add: one)
    finally show ?thesis using Cons by (simp add: one)
  qed
qed

lemma closure_line [simp]:
  "trimmed ''[logger] log file closed'' = ''[logger] log file closed''"
  by (simp add: trimmed_def isSpace_def)

text \<open>C2 as stated fails. In the session of the specification (a file opened, \<open>hello\<close>
  logged in immediate mode, the file closed, every request delivered) the file holds the
  byte-order mark, the confirmation line and \<open>hello\<close>; the closure line reaches the
  subscribers and not the file.\<close>

theorem closure_line_missing_counterexample:
  "logFileStream sink_open = Some \<lparr>device = ''out.log'', generateByteOrderMark = False\<rparr> \<and>
   contents (files (drain (setLogFile True [] sink_open))) ''out.log'' =
     utf8_bom @ ''[logger] log file out.log opened for writing'' @ [newline]
       @ ''hello'' @ [newline] \<and>
   emitted (drain (setLogFile True [] sink_open)) =
     emitted sink_open @ [LogMessage ''[logger] log file closed'']"
  by code_simp

text \<open>A file opened after the closure, before the closure request is delivered, does get
  the closure line: the request is handled with the stream of the moment of delivery.\<close>

lemma closure_line_in_reopened_file:
  "contents (files (run [SetLogFile True [], SetLogFile True ''out.log'', Deliver, Deliver]
      sink_open)) ''out.log'' =
     utf8_bom @ ''[logger] log file closed'' @ [newline]
       @ ''[logger] log file out.log opened for writing'' @ [newline]"
  by code_simp

text \<open>C2, amended: with a file sink open, \<open>setLogFile\<close> with the empty name posts the
  request for the closure line behind the requests already queued and, in the same call,
  releases the stream and the file; the call itself emits nothing, writes nothing and
  appends nothing to the buffer. Afterwards, as long as no operation opens a file, no
  stream is configured and no file changes, whatever the operations are; so the closure
  line is not written to the file that was closed. When the queue is delivered, the
  queued requests and the closure line are dropped if logging is disabled, emitted one by
  one as \<open>logMessage\<close> signals in immediate mode, and appended to \<open>pendingMessages\<close>
  (emitting nothing) in buffered mode.\<close>

theorem closure_posted_then_released:
  assumes "logFileStream s = Some st" and "logFileName s \<noteq> []"
  shows "eventQueue (setLogFile opens [] s) =
           eventQueue s @ [MakeLogPrefixed ''logger'' ''log file closed''] \<and>
         logFileStream (setLogFile opens [] s) = None \<and>
         logFile (setLogFile opens [] s) = None \<and>
         files (setLogFile opens [] s) = files s \<and>
         files (drain (setLogFile opens [] s)) = files s \<and>
         emitted (setLogFile opens [] s) = emitted s \<and>
         pendingMessages (setLogFile opens [] s) = pendingMessages s \<and>
         (\<forall>ops. list_all opens_no_file ops \<longrightarrow>
            logFileStream (run ops (setLogFile opens [] s)) = None \<and>
            files (run ops (setLogFile opens [] s)) = files s) \<and>
         (\<not> loggingEnabled s \<longrightarrow>
            emitted (drain (setLogFile opens [] s)) = emitted s \<and>
            pendingMessages (drain (setLogFile opens [] s)) = pendingMessages s) \<and>
         (loggingEnabled s \<and> immediateMode s \<longrightarrow>
            emitted (drain (setLogFile opens [] s)) =
              emitted s @ map LogMessage
                (map line_of (eventQueue s) @ [''[logger] log file closed'']) \<and>
            pendingMessages (drain (setLogFile opens [] s)) = pendingMessages s) \<and>
         (loggingEnabled s \<and> \<not> immediateMode s \<longrightarrow>
            emitted (drain (setLogFile opens [] s)) = emitted s \<and>
            pendingMessages (drain (setLogFile opens [] s)) =
              pendingMessages s @ map line_of (eventQueue s)
                @ [''[logger] log file closed''])"
proof -
  let ?t = "setLogFile opens [] s"
  have call: "eventQueue ?t = eventQueue s @ [MakeLogPrefixed ''logger'' ''log file closed'']"
    "logFileStream ?t = None" "logFile ?t = None" "files ?t = files s"
    "emitted ?t = emitted s" "pendingMessages ?t = pendingMessages s"
    "loggingEnabled ?t = loggingEnabled s" "immediateMode ?t = immediateMode s"
    using assms(2) by (simp_all add: setLogFile_def Let_def log2_def post_def)
  have later: "logFileStream (run ops ?t) = None \<and> files (run ops ?t) = files s"
    if "list_all opens_no_file ops" for ops
    using no_stream_run [OF call(2) that] call(4) by simp
  have disabled: "emitted (drain ?t) = emitted s \<and> pendingMessages (drain ?t) = pendingMessages s"
    if "\<not> loggingEnabled s"
    using that drain_disabled [of ?t] call by simp
  have immediate: "emitted (drain ?t) =
      emitted s @ map LogMessage (map line_of (eventQueue s) @ [''[logger] log file closed''])
      \<and> pendingMessages (drain ?t) = pendingMessages s"
    if "loggingEnabled s \<and> immediateMode s"
    using that drain_immediate [of ?t] call by simp
  have buffered: "emitted (drain ?t) = emitted s \<and>
      pendingMessages (drain ?t) =
        pendingMessages s @ map line_of (eventQueue s) @ [''[logger] log file closed'']"
    if "loggingEnabled s \<and> \<not> immediateMode s"
    using that drain_buffered [of ?t] call by simp
  show ?thesis
    using call(1-6) no_stream_drain [OF call(2)] later disabled immediate buffered
    by (intro conjI allI impI) simp_all
qed

theorem closure_posted_then_released_witness:
  "logFileStream sink_open = Some \<lparr>device = ''out.log'', generateByteOrderMark = False\<rparr> \<and>
   logFileName sink_open \<noteq> [] \<and> loggingEnabled sink_open \<and> immediateMode sink_open \<and>
   eventQueue (setLogFile True [] sink_open) =
     [MakeLogPrefixed ''logger'' ''log file closed''] \<and>
   logFileStream (setLogFile True [] sink_open) = None \<and>
   files (drain (setLogFile True [] sink_open)) = files sink_open \<and>
   emitted (drain (setLogFile True [] sink_open)) =
     emitted sink_open @ [LogMessage ''[logger] log file closed''] \<and>
   files (run [Deliver, SetFlushTime 500, Invoke (MakeLog ''x''), SetLogFile False ''b.log'',
       FlushMessages] (setLogFile True [] sink_open)) = files sink_open \<and>
   logFileStream sink_buffered = Some \<lparr>device = ''out.log'', generateByteOrderMark = True\<rparr> \<and>
   logFileName sink_buffered \<noteq> [] \<and> loggingEnabled sink_buffered \<and>
   \<not> immediateMode sink_buffered \<and>
   emitted (drain (setLogFile True [] sink_buffered)) = emitted sink_buffered \<and>
   pendingMessages (drain (setLogFile True [] sink_buffered)) =
     pendingMessages sink_buffered @ [''[logger] log file closed''] \<and>
   logFileStream sink_disabled = Some \<lparr>device = ''out.log'', generateByteOrderMark = True\<rparr> \<and>
   logFileName sink_disabled \<noteq> [] \<and> \<not> loggingEnabled sink_disabled \<and>
   emitted (drain (setLogFile True [] sink_disabled)) = emitted sink_disabled \<and>
   pendingMessages (drain (setLogFile True [] sink_disabled)) = pendingMessages sink_disabled"
proof -
  have open_state:
    "logFileStream sink_open = Some \<lparr>device = ''out.log'', generateByteOrderMark = False\<rparr>"
    "logFileName sink_open \<noteq> []" "loggingEnabled sink_open" "immediateMode sink_open"
    "eventQueue sink_open = []"
    by code_simp+
  have buffered_state:
    "logFileStream sink_buffered = Some \<lparr>device = ''out.log'', generateByteOrderMark = True\<rparr>"
    "logFileName sink_buffered \<noteq> []" "loggingEnabled sink_buffered"
    "\<not> immediateMode sink_buffered" "eventQueue sink_buffered = []"
    by code_simp+
  have disabled_state:
    "logFileStream sink_disabled = Some \<lparr>device = ''out.log'', generateByteOrderMark = True\<rparr>"
    "logFileName sink_disabled \<noteq> []" "\<not> loggingEnabled sink_disabled"
    by code_simp+
  have ops: "list_all opens_no_file [Deliver, SetFlushTime 500, Invoke (MakeLog ''x''),
      SetLogFile False ''b.log'', FlushMessages]"
    by simp
  note immediate = closure_posted_then_released [OF open_state(1,2), of True]
  note buffered = closure_posted_then_released [OF buffered_state(1,2), of True]
  note disabled = closure_posted_then_released [OF disabled_state(1,2), of True]
  have first: "eventQueue (setLogFile True [] sink_open) =
       [MakeLogPrefixed ''logger'' ''log file closed''] \<and>
     logFileStream (setLogFile True [] sink_open) = None \<and>
     files (drain (setLogFile True [] sink_open)) = files sink_open \<and>
     emitted (drain (setLogFile True [] sink_open)) =
       emitted sink_open @ [LogMessage ''[logger] log file closed''] \<and>
     files (run [Deliver, SetFlushTime 500, Invoke (MakeLog ''x''), SetLogFile False ''b.log'',
         FlushMessages] (setLogFile True [] sink_open)) = files sink_open"
    using immediate ops open_state by simp
  have second: "emitted (drain (setLogFile True [] sink_buffered)) = emitted sink_buffered \<and>
     pendingMessages (drain (setLogFile True [] sink_buffered)) =
       pendingMessages sink_buffered @ [''[logger] log file closed'']"
    using buffered buffered_state by simp
  have third: "emitted (drain (setLogFile True [] sink_disabled)) = emitted sink_disabled \<and>
     pendingMessages (drain (setLogFile True [] sink_disabled)) = pendingMessages sink_disabled"
    using disabled disabled_state by simp
  show ?thesis
    using open_state buffered_state disabled_state first second third by simp
qed

subsection \<open>A file that cannot be opened\<close>

text \<open>Without a stream before, a failed open leaves none and writes nothing.\<close>

lemma failed_open_without_stream:
  "logFileStream s = None \<Longrightarrow>
   logFileStream (setLogFile False fileName s) = None \<and>
   files (setLogFile False fileName s) = files s"
  by (simp add: setLogFile_def Let_def log2_def post_def)

text \<open>C7 at a state with a file already open: the failed open of \<open>other.log\<close> sets the
  file name and returns, the stream on \<open>out.log\<close> stays, and the lines that follow, in
  immediate mode or by a flush, are written to \<open>out.log\<close>.\<close>

theorem failed_open_keeps_old_stream:
  "logFileName failed_reopen = ''other.log'' \<and>
   logFileStream failed_reopen =
     Some \<lparr>device = ''out.log'', generateByteOrderMark = False\<rparr> \<and>
   contents (files (invoke (MakeLog ''x'') failed_reopen)) ''out.log'' =
     contents (files failed_reopen) ''out.log'' @ ''x'' @ [newline] \<and>
   contents (files (run [SetFlushTime 500, Invoke (MakeLog ''y''), FlushMessages]
       failed_reopen)) ''out.log'' =
     contents (files failed_reopen) ''out.log'' @ ''y'' @ [newline]"
  by code_simp

end
